theory Spec2Isabelle
  imports Complex_Main
begin

section \<open>Python values and errors\<close>

text \<open>
  The exceptions the modelled code can raise.  \<open>SystemExit\<close> carries its message:
  \<open>Set OPENROUTER_API_KEY\<close>, or \<open>Planned calls n exceed daily_call_cap=c\<close> with its
  two numbers.
\<close>

datatype exit_message = Set_api_key | Planned_calls_exceed nat int

datatype py_error =
  ValueError | IndexError | AttributeError | JSONDecodeError | SystemExit exit_message

text \<open>
  Python's \<open>xs[s:]\<close> and \<open>xs[:m]\<close> for an integer bound: a negative bound counts
  from the end of the list, and a bound outside the list is clipped.
\<close>

definition slice_from :: "'a list \<Rightarrow> int \<Rightarrow> 'a list" where
  "slice_from xs s =
     (if 0 \<le> s then drop (nat s) xs else drop (length xs - nat (- s)) xs)"

definition slice_to :: "'a list \<Rightarrow> int \<Rightarrow> 'a list" where
  "slice_to xs m =
     (if 0 \<le> m then take (nat m) xs else take (length xs - nat (- m)) xs)"

section \<open>Abstract reconstruction\<close>

text \<open>
  Python's item assignment \<open>words[pos] = word\<close>: a negative index counts from the
  end, and an index outside the list raises \<open>IndexError\<close>.
\<close>

definition list_setitem :: "'a list \<Rightarrow> int \<Rightarrow> 'a \<Rightarrow> py_error + 'a list" where
  "list_setitem ws pos w =
     (let n = int (length ws); j = (if pos < 0 then pos + n else pos)
      in if 0 \<le> j \<and> j < n then Inr (ws[nat j := w]) else Inl IndexError)"

text \<open>\<open>max(...)\<close> over a generator: \<open>ValueError\<close> when it yields nothing.\<close>

definition py_max :: "int list \<Rightarrow> py_error + int" where
  "py_max ps = (case ps of [] \<Rightarrow> Inl ValueError | p # ps' \<Rightarrow> Inr (fold max ps' p))"

text \<open>\<open>" ".join(words)\<close> and, to count tokens, \<open>s.split(" ")\<close>.\<close>

fun join_space :: "string list \<Rightarrow> string" where
  "join_space [] = []"
| "join_space [w] = w"
| "join_space (w # ws) = w @ CHR '' '' # join_space ws"

fun split_space :: "string \<Rightarrow> string list" where
  "split_space [] = [[]]"
| "split_space (c # cs) =
     (if c = CHR '' '' then [] # split_space cs
      else (case split_space cs of [] \<Rightarrow> [[c]] | t # ts \<Rightarrow> (c # t) # ts))"

text \<open>
  \<^verbatim>\<open>
    def reconstruct_abstract(inv: Dict[str, List[int]]) -> str:
        if not inv:
            return ""
        max_pos = max(pos for positions in inv.values() for pos in positions)
        words = [""] * (max_pos + 1)
        for word, positions in inv.items():
            for pos in positions:
                words[pos] = word
        return " ".join(words)
  \<close>
  The dictionary is the list of its items in iteration order; \<open>None\<close> is the absent
  index (\<open>obj.get("abstract_inverted_index")\<close> of a row without one).  The inner loop
  is \<open>place_word\<close>, the outer loop \<open>place_all\<close>; \<open>[""] * n\<close> is the empty list for
  \<open>n \<le> 0\<close>.
\<close>

type_synonym inverted_index = "(string \<times> int list) list"

fun place_word :: "string \<Rightarrow> int list \<Rightarrow> string list \<Rightarrow> py_error + string list" where
  "place_word word [] words = Inr words"
| "place_word word (pos # positions) words =
     (case list_setitem words pos word of
        Inl e \<Rightarrow> Inl e
      | Inr words' \<Rightarrow> place_word word positions words')"

fun place_all :: "inverted_index \<Rightarrow> string list \<Rightarrow> py_error + string list" where
  "place_all [] words = Inr words"
| "place_all ((word, positions) # items) words =
     (case place_word word positions words of
        Inl e \<Rightarrow> Inl e
      | Inr words' \<Rightarrow> place_all items words')"

definition all_positions :: "inverted_index \<Rightarrow> int list" where
  "all_positions items = concat (map snd items)"

definition reconstruct_abstract :: "inverted_index option \<Rightarrow> py_error + string" where
  "reconstruct_abstract inv_arg =
     (case inv_arg of
        None \<Rightarrow> Inr []
      | Some items \<Rightarrow>
          if items = [] then Inr []
          else (case py_max (all_positions items) of
                  Inl e \<Rightarrow> Inl e
                | Inr max_pos \<Rightarrow>
                    (case place_all items (replicate (nat (max_pos + 1)) []) of
                       Inl e \<Rightarrow> Inl e
                     | Inr words \<Rightarrow> Inr (join_space words))))"

text \<open>
  What the properties of reconstruction speak about: whether every listed position is
  non-negative, whether a word contains a space, whether two entries list a common
  position, and the word that the last entry listing a position gives it.
\<close>

definition nonneg_positions :: "inverted_index \<Rightarrow> bool" where
  "nonneg_positions items = list_all (\<lambda>p. 0 \<le> p) (all_positions items)"

definition space_free :: "inverted_index \<Rightarrow> bool" where
  "space_free items = list_all (\<lambda>(w, ps). CHR '' '' \<notin> set w) items"

fun disjoint_positions :: "inverted_index \<Rightarrow> bool" where
  "disjoint_positions [] = True"
| "disjoint_positions ((w, ps) # items) =
     (list_all (\<lambda>(w', ps'). list_all (\<lambda>p. p \<notin> set ps') ps) items
      \<and> disjoint_positions items)"

fun word_at :: "inverted_index \<Rightarrow> int \<Rightarrow> string \<Rightarrow> string" where
  "word_at [] p d = d"
| "word_at ((w, ps) # items) p d = word_at items p (if p \<in> set ps then w else d)"

text \<open>
  The positions item assignment accepts: with \<open>max_pos\<close> the largest listed position,
  the word list has \<open>max_pos + 1\<close> slots, and a position \<open>p\<close> is in range when
  \<open>- (max_pos + 1) \<le> p\<close>.
\<close>

definition accepted_positions :: "inverted_index \<Rightarrow> bool" where
  "accepted_positions items =
     (all_positions items \<noteq> []
      \<and> list_all (\<lambda>p. - (Max (set (all_positions items)) + 1) \<le> p) (all_positions items))"

section \<open>Loading: the start offset and the record limit\<close>

text \<open>
  \<^verbatim>\<open>
    if args.start:
        lines = lines[args.start :]
    if args.max:
        lines = lines[: args.max]
  \<close>
  \<open>--start\<close> is an integer (default 0); \<open>--max\<close> is an integer or \<open>None\<close> (the
  default).  Both tests are Python truth tests: 0 and \<open>None\<close> are false.
\<close>

definition apply_start :: "int \<Rightarrow> 'a list \<Rightarrow> 'a list" where
  "apply_start start lines = (if start \<noteq> 0 then slice_from lines start else lines)"

definition apply_max :: "int option \<Rightarrow> 'a list \<Rightarrow> 'a list" where
  "apply_max mx lines =
     (case mx of
        None \<Rightarrow> lines
      | Some m \<Rightarrow> (if m \<noteq> 0 then slice_to lines m else lines))"

definition load_lines :: "int \<Rightarrow> int option \<Rightarrow> 'a list \<Rightarrow> 'a list" where
  "load_lines start mx lines = apply_max mx (apply_start start lines)"

section \<open>Input rows, paper records and batches\<close>

text \<open>
  A key of a decoded JSON object: absent, present with the value \<open>null\<close>, or present
  with a value.  \<open>obj.get(key)\<close> is \<open>None\<close> unless there is a value;
  \<open>obj.get(key, default)\<close> gives the default only when the key is absent.
\<close>

datatype 'a field = Absent | Null | Value 'a

definition dict_get :: "'a field \<Rightarrow> 'a option" where
  "dict_get f = (case f of Value v \<Rightarrow> Some v | _ \<Rightarrow> None)"

definition dict_get_default :: "'a field \<Rightarrow> 'a \<Rightarrow> 'a option" where
  "dict_get_default f d = (case f of Absent \<Rightarrow> Some d | Null \<Rightarrow> None | Value v \<Rightarrow> Some v)"

text \<open>
  An input line after \<open>json.loads\<close>: the call raises on a line that is not JSON
  (\<open>Malformed\<close>), and otherwise gives the row object, of which the loop reads the keys
  \<open>id\<close>, \<open>title\<close>, \<open>abstract_inverted_index\<close>, \<open>authorships\<close>, \<open>publication_year\<close>
  and \<open>year\<close>.
\<close>

record author =
  display_name :: "string field"

record authorship =
  author :: "author field"

record openalex_row =
  row_id :: "string field"
  row_title :: "string field"
  abstract_inverted_index :: "inverted_index field"
  authorships :: "authorship list field"
  publication_year :: "int field"
  row_year :: "int field"

datatype input_line = Malformed | Row openalex_row

datatype year_value = Year int | NA

text \<open>The dictionary appended to a batch for one line; \<open>None\<close> is Python's \<open>None\<close>.\<close>

record paper =
  paper_id :: "string option"
  paper_title :: "string option"
  paper_first_author :: "string option"
  paper_year :: year_value
  paper_abstract :: string

text \<open>
  \<^verbatim>\<open>
    authors = obj.get("authorships") or []
    first_author = authors[0].get("author", {}).get("display_name", "") if authors else ""
    pub_year = obj.get("publication_year") or obj.get("year") or "N/A"
  \<close>
  \<open>or\<close> takes its right operand when the left one is false: \<open>None\<close>, 0 or the empty
  list.  An \<open>author\<close> that is \<open>null\<close> has no \<open>get\<close>: \<open>AttributeError\<close>.
\<close>

definition first_author_of :: "openalex_row \<Rightarrow> py_error + string option" where
  "first_author_of obj =
     (case dict_get (authorships obj) of
        None \<Rightarrow> Inr (Some [])
      | Some [] \<Rightarrow> Inr (Some [])
      | Some (a # _) \<Rightarrow>
          (case author a of
             Absent \<Rightarrow> Inr (Some [])
           | Null \<Rightarrow> Inl AttributeError
           | Value au \<Rightarrow> Inr (dict_get_default (display_name au) [])))"

definition or_year :: "int option \<Rightarrow> year_value \<Rightarrow> year_value" where
  "or_year v other = (case v of None \<Rightarrow> other | Some n \<Rightarrow> if n \<noteq> 0 then Year n else other)"

definition pub_year_of :: "openalex_row \<Rightarrow> year_value" where
  "pub_year_of obj =
     or_year (dict_get (publication_year obj)) (or_year (dict_get (row_year obj)) NA)"

text \<open>
  The body of the inner loop of batch building, for one line:
  \<^verbatim>\<open>
    obj = json.loads(line)
    abstract = reconstruct_abstract(obj.get("abstract_inverted_index"))
    title = obj.get("title", "")
    ...
    batch.append({"id": obj.get("id"), "title": title, "first_author": first_author,
                  "year": pub_year, "abstract": abstract})
  \<close>
  It raises when the line is not JSON, when reconstruction raises, or on a \<open>null\<close>
  author.
\<close>

definition make_paper :: "input_line \<Rightarrow> py_error + paper" where
  "make_paper line =
     (case line of
        Malformed \<Rightarrow> Inl JSONDecodeError
      | Row obj \<Rightarrow>
          (case reconstruct_abstract (dict_get (abstract_inverted_index obj)) of
             Inl e \<Rightarrow> Inl e
           | Inr abstract \<Rightarrow>
               (case first_author_of obj of
                  Inl e \<Rightarrow> Inl e
                | Inr first_author \<Rightarrow>
                    Inr \<lparr>paper_id = dict_get (row_id obj),
                         paper_title = dict_get_default (row_title obj) [],
                         paper_first_author = first_author,
                         paper_year = pub_year_of obj,
                         paper_abstract = abstract\<rparr>)))"

text \<open>The inner loop \<open>for line in batch_lines\<close>: the first exception ends it.\<close>

fun make_batch :: "input_line list \<Rightarrow> py_error + paper list" where
  "make_batch [] = Inr []"
| "make_batch (line # batch_lines) =
     (case make_paper line of
        Inl e \<Rightarrow> Inl e
      | Inr p \<Rightarrow>
          (case make_batch batch_lines of
             Inl e \<Rightarrow> Inl e
           | Inr batch \<Rightarrow> Inr (p # batch)))"

type_synonym batch = "int \<times> paper list"

text \<open>
  \<^verbatim>\<open>
    batches = []
    for i in range(0, len(lines), args.batch_size):
        batch_lines = lines[i : i + args.batch_size]
        batch = []
        for line in batch_lines: ...
        batches.append((i + args.start, batch))
  \<close>
  \<open>build_from\<close> is the loop from index \<open>i\<close> on, for a positive step.  \<open>range\<close> raises
  \<open>ValueError\<close> for the step 0 and is empty for a negative step.
\<close>

function build_from :: "int \<Rightarrow> nat \<Rightarrow> nat \<Rightarrow> input_line list \<Rightarrow> py_error + batch list" where
  "build_from start bsize i lines =
     (if bsize = 0 \<or> length lines \<le> i then Inr []
      else (case make_batch (take bsize (drop i lines)) of
              Inl e \<Rightarrow> Inl e
            | Inr batch \<Rightarrow>
                (case build_from start bsize (i + bsize) lines of
                   Inl e \<Rightarrow> Inl e
                 | Inr batches \<Rightarrow> Inr ((int i + start, batch) # batches))))"
  by pat_completeness auto
termination
  by (relation "measure (\<lambda>(start, bsize, i, lines). length lines - i)") auto

declare build_from.simps [simp del]

definition build_batches :: "int \<Rightarrow> int \<Rightarrow> input_line list \<Rightarrow> py_error + batch list" where
  "build_batches start batch_size lines =
     (if batch_size = 0 then Inl ValueError
      else if batch_size < 0 then Inr []
      else build_from start (nat batch_size) 0 lines)"


section \<open>Resuming from an existing output log\<close>


datatype output_line = Garbled | Logged "string option list"

text \<open>
  \<^verbatim>\<open>
    processed_ids = set()
    if args.resume and args.output.exists():
        for line in fp:
            try:
                obj = json.loads(line)
                for pid in obj.get("input_ids", []):
                    processed_ids.add(pid)
            except Exception:
                continue
  \<close>
  The existing output is \<open>None\<close> when the file does not exist.
\<close>

definition resume_scan :: "bool \<Rightarrow> output_line list option \<Rightarrow> string option set" where
  "resume_scan resume existing =
     (if resume
      then (case existing of
              None \<Rightarrow> {}
            | Some out_lines \<Rightarrow>
                fold (\<lambda>line processed_ids.
                        case line of
                          Garbled \<Rightarrow> processed_ids
                        | Logged ids \<Rightarrow> fold insert ids processed_ids)
                  out_lines {})
      else {})"

text \<open>
  \<^verbatim>\<open>
    if processed_ids:
        batches = [(idx, batch) for idx, batch in batches
                   if not all(b["id"] in processed_ids for b in batch)]
  \<close>
\<close>

definition skip_processed :: "string option set \<Rightarrow> batch list \<Rightarrow> batch list" where
  "skip_processed processed_ids batches =
     (if processed_ids \<noteq> {}
      then filter (\<lambda>(idx, batch). \<not> list_all (\<lambda>b. paper_id b \<in> processed_ids) batch) batches
      else batches)"

text \<open>A batch all of whose member ids are in the resume set.\<close>

definition fully_covered :: "string option set \<Rightarrow> batch \<Rightarrow> bool" where
  "fully_covered processed_ids b = (set (map paper_id (snd b)) \<subseteq> processed_ids)"

section \<open>Parsing the model output\<close>

text \<open>
  A decoded JSON value.  \<open>json.loads\<close> belongs to Python's library and is a parameter
  of the model: \<open>loads s = None\<close> when the call raises, \<open>Some v\<close> when it returns
  \<open>v\<close>.  \<open>isinstance(obj, list)\<close> holds for the arrays.
\<close>

datatype json =
  JNull | JBool bool | JNumber rat | JString string
  | JArray "json list" | JObject "(string \<times> json) list"

definition as_list :: "json \<Rightarrow> json list option" where
  "as_list obj = (case obj of JArray xs \<Rightarrow> Some xs | _ \<Rightarrow> None)"

text \<open>
  The string methods of the function, on strings of characters below 256:
  \<open>strip()\<close> removes leading and trailing whitespace, \<open>find\<close> and \<open>rfind\<close> give the
  lowest and the highest index of a character or \<open>-1\<close>, and \<open>text[a:b]\<close> clips its
  bounds to the string.
\<close>

definition py_isspace :: "char \<Rightarrow> bool" where
  "py_isspace c = (of_char c \<in> {9, 10, 11, 12, 13, 28, 29, 30, 31, 32, 133, 160 :: nat})"

definition strip :: "string \<Rightarrow> string" where
  "strip text = rev (dropWhile py_isspace (rev (dropWhile py_isspace text)))"

fun str_find :: "char \<Rightarrow> string \<Rightarrow> int" where
  "str_find c [] = - 1"
| "str_find c (x # xs) =
     (if x = c then 0
      else (let r = str_find c xs in if r = - 1 then - 1 else r + 1))"

definition str_rfind :: "char \<Rightarrow> string \<Rightarrow> int" where
  "str_rfind c text =
     (let r = str_find c (rev text)
      in if r = - 1 then - 1 else int (length text) - 1 - r)"

definition py_slice :: "'a list \<Rightarrow> int \<Rightarrow> int \<Rightarrow> 'a list" where
  "py_slice xs a b =
     (let n = int (length xs);
          a' = (if a < 0 then max 0 (a + n) else min a n);
          b' = (if b < 0 then max 0 (b + n) else min b n)
      in take (nat (b' - a')) (drop (nat a') xs))"

text \<open>
  \<^verbatim>\<open>
    def parse_model_json(text: str) -> Optional[list]:
        text = text.strip()
        try:
            obj = json.loads(text)
            if isinstance(obj, list):
                return obj
        except Exception:
            pass
        start = text.find("[")
        end = text.rfind("]")
        if start != -1 and end != -1 and end > start:
            try:
                obj = json.loads(text[start : end + 1])
                if isinstance(obj, list):
                    return obj
            except Exception:
                return None
        return None
  \<close>
\<close>

definition parse_model_json :: "(string \<Rightarrow> json option) \<Rightarrow> string \<Rightarrow> json list option" where
  "parse_model_json loads text0 =
     (let text = strip text0 in
      case (case loads text of None \<Rightarrow> None | Some obj \<Rightarrow> as_list obj) of
        Some xs \<Rightarrow> Some xs
      | None \<Rightarrow>
          (let start = str_find CHR ''['' text;
               end' = str_rfind CHR '']'' text
           in if start \<noteq> - 1 \<and> end' \<noteq> - 1 \<and> end' > start
              then (case loads (py_slice text start (end' + 1)) of
                      None \<Rightarrow> None
                    | Some obj \<Rightarrow> as_list obj)
              else None))"

text \<open>
  The parsing rule in the words of the specification: parse the trimmed text as a JSON
  array; on failure take the substring enclosed by the first \<open>[\<close> and the last \<open>]\<close>
  and parse that as a JSON array; the result is null when both fail.
\<close>

definition json_array :: "(string \<Rightarrow> json option) \<Rightarrow> string \<Rightarrow> json list option" where
  "json_array loads s = (case loads s of Some (JArray xs) \<Rightarrow> Some xs | _ \<Rightarrow> None)"

definition enclosed :: "string \<Rightarrow> string option" where
  "enclosed text =
     (let from_open = dropWhile (\<lambda>c. c \<noteq> CHR ''['') text
      in if CHR '']'' \<in> set from_open
         then Some (rev (dropWhile (\<lambda>c. c \<noteq> CHR '']'') (rev from_open)))
         else None)"

definition parse_spec :: "(string \<Rightarrow> json option) \<Rightarrow> string \<Rightarrow> json list option" where
  "parse_spec loads text0 =
     (case json_array loads (strip text0) of
        Some xs \<Rightarrow> Some xs
      | None \<Rightarrow>
          (case enclosed (strip text0) of
             None \<Rightarrow> None
           | Some s \<Rightarrow> json_array loads s))"

section \<open>The rate limiter\<close>

text \<open>
  \<^verbatim>\<open>
    limiter_lock = threading.Lock()
    call_timestamps = deque()

    def wait_for_slot():
        while True:
            with limiter_lock:
                now = time.time()
                # drop timestamps older than 60s
                while call_timestamps and now - call_timestamps[0] > 60:
                    call_timestamps.popleft()
                if len(call_timestamps) < args.calls_per_minute:
                    call_timestamps.append(now)
                    return
            time.sleep(0.2)
  \<close>
  Time is a real number of seconds.  \<open>evict\<close> is the inner loop on the queue, oldest
  timestamp first.  \<open>try_slot\<close> is one pass through the locked region with the clock
  reading \<open>now\<close>: it gives the queue it leaves and whether the caller was admitted.
  The lock makes the passes of all threads a sequence, each with its own reading.
\<close>

fun evict :: "real \<Rightarrow> real list \<Rightarrow> real list" where
  "evict now [] = []"
| "evict now (t # ts) = (if now - t > 60 then evict now ts else t # ts)"

definition try_slot :: "int \<Rightarrow> real \<Rightarrow> real list \<Rightarrow> bool \<times> real list" where
  "try_slot calls_per_minute now call_timestamps =
     (let kept = evict now call_timestamps
      in if int (length kept) < calls_per_minute
         then (True, kept @ [now])
         else (False, kept))"

text \<open>
  \<open>wait_for_slot\<close> for one caller: the clock readings of its successive passes are
  given as a list, and the call has not returned (\<open>None\<close>) when the readings run out
  before a pass admits it.  It returns the queue and the readings left.
\<close>

fun wait_for_slot :: "int \<Rightarrow> real list \<Rightarrow> real list \<Rightarrow> (real list \<times> real list) option" where
  "wait_for_slot calls_per_minute [] call_timestamps = None"
| "wait_for_slot calls_per_minute (now # clock) call_timestamps =
     (case try_slot calls_per_minute now call_timestamps of
        (True, ts') \<Rightarrow> Some (ts', clock)
      | (False, ts') \<Rightarrow> wait_for_slot calls_per_minute clock ts')"

text \<open>
  The passes of all callers, in the order in which they hold the lock: the timestamps
  of the admitted calls.
\<close>

fun admitted :: "int \<Rightarrow> real list \<Rightarrow> real list \<Rightarrow> real list" where
  "admitted calls_per_minute [] call_timestamps = []"
| "admitted calls_per_minute (now # nows) call_timestamps =
     (case try_slot calls_per_minute now call_timestamps of
        (True, ts') \<Rightarrow> now # admitted calls_per_minute nows ts'
      | (False, ts') \<Rightarrow> admitted calls_per_minute nows ts')"

text \<open>
  The timestamps of a list inside the closed window of 60 seconds that starts at \<open>w\<close>,
  those inside the trailing window of a reading, and whether the trailing window has
  room for one more call.
\<close>

definition in_window :: "real \<Rightarrow> real list \<Rightarrow> real list" where
  "in_window w ts = filter (\<lambda>a. w \<le> a \<and> a \<le> w + 60) ts"

definition trailing :: "real \<Rightarrow> real list \<Rightarrow> real list" where
  "trailing now ts = filter (\<lambda>t. now - t \<le> 60) ts"

definition room :: "int \<Rightarrow> real list \<Rightarrow> real \<Rightarrow> bool" where
  "room calls_per_minute ts now = (int (length (trailing now ts)) < calls_per_minute)"

text \<open>No closed window of 60 seconds holds more timestamps of a list than the cap.\<close>

definition window_bound :: "int \<Rightarrow> real list \<Rightarrow> bool" where
  "window_bound calls_per_minute xs =
     (\<forall>w. int (length (in_window w xs)) \<le> max 0 calls_per_minute)"

section \<open>Processing one batch\<close>








text \<open>
  The limiter admits \<open>k\<close> calls in a row from the clock readings to come: each of
  \<open>k\<close> successive \<open>wait_for_slot\<close> calls returns.
\<close>

fun admits :: "int \<Rightarrow> nat \<Rightarrow> real list \<Rightarrow> real list \<Rightarrow> bool" where
  "admits calls_per_minute 0 readings ts = True"
| "admits calls_per_minute (Suc k) readings ts =
     (case wait_for_slot calls_per_minute readings ts of
        None \<Rightarrow> False
      | Some (ts', readings') \<Rightarrow> admits calls_per_minute k readings' ts')"






section \<open>The pipeline driver\<close>







section \<open>Properties of abstract reconstruction\<close>

subsection \<open>Item assignment and the two loops\<close>

lemma list_setitem_in_range:
  "0 \<le> pos \<Longrightarrow> pos < int (length ws) \<Longrightarrow> list_setitem ws pos w = Inr (ws[nat pos := w])"
  by (simp add: list_setitem_def Let_def)

lemma place_word_in_range:
  "list_all (\<lambda>p. 0 \<le> p \<and> p < int (length words)) ps \<Longrightarrow>
   \<exists>ws'. place_word w ps words = Inr ws' \<and> length ws' = length words
     \<and> (\<forall>i < length words. ws' ! i = (if int i \<in> set ps then w else words ! i))"
proof (induction ps arbitrary: words)
  case Nil
  then show ?case by simp
next
  case (Cons p ps)
  from Cons.prems have p: "0 \<le> p" "p < int (length words)"
    and ps: "list_all (\<lambda>q. 0 \<le> q \<and> q < int (length (words[nat p := w]))) ps"
    by simp_all
  from Cons.IH [OF ps] obtain ws' where
    ws': "place_word w ps (words[nat p := w]) = Inr ws'" "length ws' = length words"
      "\<forall>i < length words. ws' ! i = (if int i \<in> set ps then w else (words[nat p := w]) ! i)"
    by auto
  have "\<forall>i < length words. ws' ! i = (if int i \<in> set (p # ps) then w else words ! i)"
  proof (intro allI impI)
    fix i assume i: "i < length words"
    show "ws' ! i = (if int i \<in> set (p # ps) then w else words ! i)"
    proof (cases "int i = p")
      case True
      then have "nat p = i" by simp
      with ws'(3) i True show ?thesis by auto
    next
      case False
      then have "nat p \<noteq> i" using p by auto
      with ws'(3) i False show ?thesis by auto
    qed
  qed
  with ws' p show ?case by (simp add: list_setitem_in_range)
qed

lemma place_all_in_range:
  "list_all (\<lambda>p. 0 \<le> p \<and> p < int (length words)) (all_positions items) \<Longrightarrow>
   \<exists>ws'. place_all items words = Inr ws' \<and> length ws' = length words
     \<and> (\<forall>i < length words. ws' ! i = word_at items (int i) (words ! i))"
proof (induction items arbitrary: words)
  case Nil
  then show ?case by simp
next
  case (Cons it items)
  obtain w ps where it: "it = (w, ps)" by (cases it)
  from Cons.prems it have ps: "list_all (\<lambda>p. 0 \<le> p \<and> p < int (length words)) ps"
    and rest: "list_all (\<lambda>p. 0 \<le> p \<and> p < int (length words)) (all_positions items)"
    by (simp_all add: all_positions_def)
  from place_word_in_range [OF ps, of w] obtain ws1 where
    ws1: "place_word w ps words = Inr ws1" "length ws1 = length words"
      "\<forall>i < length words. ws1 ! i = (if int i \<in> set ps then w else words ! i)"
    by auto
  from rest ws1(2) have "list_all (\<lambda>p. 0 \<le> p \<and> p < int (length ws1)) (all_positions items)"
    by simp
  from Cons.IH [OF this] obtain ws' where
    ws': "place_all items ws1 = Inr ws'" "length ws' = length ws1"
      "\<forall>i < length ws1. ws' ! i = word_at items (int i) (ws1 ! i)"
    by auto
  from ws1 ws' it show ?case by simp
qed

lemma py_max_Max:
  assumes "ps \<noteq> []"
  shows "py_max ps = Inr (Max (set ps))"
proof (cases ps)
  case Nil
  with assms show ?thesis by simp
next
  case (Cons a list)
  then show ?thesis using Max.set_eq_fold [of a list] by (simp add: py_max_def)
qed

lemma split_space_not_Nil: "split_space s \<noteq> []"
  by (induction s) (auto split: list.splits)

lemma split_space_space_free:
  "CHR '' '' \<notin> set w \<Longrightarrow> split_space (w @ CHR '' '' # s) = w # split_space s"
  by (induction w) (auto split: list.splits simp: split_space_not_Nil)

lemma split_space_word: "CHR '' '' \<notin> set w \<Longrightarrow> split_space w = [w]"
  by (induction w) (auto split: list.splits)

lemma split_join_space:
  "ws \<noteq> [] \<Longrightarrow> list_all (\<lambda>w. CHR '' '' \<notin> set w) ws \<Longrightarrow> split_space (join_space ws) = ws"
  by (induction ws rule: join_space.induct) (simp_all add: split_space_word split_space_space_free)

lemma word_at_default: "list_all (\<lambda>(w, ps). p \<notin> set ps) items \<Longrightarrow> word_at items p d = d"
  by (induction items arbitrary: d) auto

lemma word_at_listed:
  "disjoint_positions items \<Longrightarrow> (w, ps) \<in> set items \<Longrightarrow> p \<in> set ps \<Longrightarrow> word_at items p d = w"
proof (induction items arbitrary: d)
  case Nil
  then show ?case by simp
next
  case (Cons it items)
  obtain w' ps' where it: "it = (w', ps')" by (cases it)
  show ?case
  proof (cases "(w, ps) \<in> set items")
    case True
    with Cons it show ?thesis by simp
  next
    case False
    with Cons.prems it have eq: "w' = w" "ps' = ps" by auto
    from Cons.prems(1) it eq have "list_all (\<lambda>(w'', ps''). list_all (\<lambda>q. q \<notin> set ps'') ps) items"
      by simp
    with Cons.prems(3) have "list_all (\<lambda>(w'', ps''). p \<notin> set ps'') items"
      by (auto simp: list_all_iff)
    then show ?thesis using it eq Cons.prems(3) by (simp add: word_at_default)
  qed
qed

lemma word_at_in_words:
  "word_at items p d = d \<or> word_at items p d \<in> fst ` set items"
proof (induction items arbitrary: d)
  case Nil
  then show ?case by simp
next
  case (Cons it items)
  obtain w ps where it: "it = (w, ps)" by (cases it)
  from Cons.IH [of "if p \<in> set ps then w else d"] it show ?case
    by (auto split: if_splits)
qed


lemma list_setitem_ok_iff:
  "(\<exists>ws'. list_setitem ws pos w = Inr ws') \<longleftrightarrow> - int (length ws) \<le> pos \<and> pos < int (length ws)"
  by (auto simp: list_setitem_def Let_def)

lemma list_setitem_length: "list_setitem ws pos w = Inr ws' \<Longrightarrow> length ws' = length ws"
  by (auto simp: list_setitem_def Let_def split: if_splits)

lemma place_word_length: "place_word w ps words = Inr ws' \<Longrightarrow> length ws' = length words"
  by (induction ps arbitrary: words) (auto split: sum.splits dest: list_setitem_length)

lemma place_word_ok_iff:
  "(\<exists>ws'. place_word w ps words = Inr ws') \<longleftrightarrow>
   list_all (\<lambda>p. - int (length words) \<le> p \<and> p < int (length words)) ps"
proof (induction ps arbitrary: words)
  case Nil
  then show ?case by simp
next
  case (Cons p ps)
  show ?case
  proof (cases "list_setitem words p w")
    case (Inl e)
    with list_setitem_ok_iff [of words p w] show ?thesis by auto
  next
    case (Inr ws1)
    with list_setitem_ok_iff [of words p w]
    have p: "- int (length words) \<le> p \<and> p < int (length words)" by auto
    from Inr have "length ws1 = length words" by (rule list_setitem_length)
    with Cons.IH [of ws1] Inr p show ?thesis by simp
  qed
qed

lemma place_all_length: "place_all items words = Inr ws' \<Longrightarrow> length ws' = length words"
proof (induction items arbitrary: words)
  case Nil
  then show ?case by simp
next
  case (Cons it items)
  obtain w ps where it: "it = (w, ps)" by (cases it)
  with Cons show ?case by (auto split: sum.splits dest: place_word_length)
qed

lemma place_all_ok_iff:
  "(\<exists>ws'. place_all items words = Inr ws') \<longleftrightarrow>
   list_all (\<lambda>p. - int (length words) \<le> p \<and> p < int (length words)) (all_positions items)"
proof (induction items arbitrary: words)
  case Nil
  then show ?case by (simp add: all_positions_def)
next
  case (Cons it items)
  obtain w ps where it: "it = (w, ps)" by (cases it)
  show ?case
  proof (cases "place_word w ps words")
    case (Inl e)
    with place_word_ok_iff [of w ps words] it show ?thesis
      by (auto simp: all_positions_def)
  next
    case (Inr ws1)
    with place_word_ok_iff [of w ps words]
    have ps: "list_all (\<lambda>p. - int (length words) \<le> p \<and> p < int (length words)) ps" by auto
    from Inr have "length ws1 = length words" by (rule place_word_length)
    with Cons.IH [of ws1] Inr ps it show ?thesis by (simp add: all_positions_def)
  qed
qed

lemma reconstruct_abstract_ok_iff:
  "(\<exists>s. reconstruct_abstract (Some items) = Inr s) \<longleftrightarrow> items = [] \<or> accepted_positions items"
proof (cases "items = []")
  case True
  then show ?thesis by (simp add: reconstruct_abstract_def)
next
  case items: False
  show ?thesis
  proof (cases "all_positions items = []")
    case True
    with items show ?thesis
      by (simp add: reconstruct_abstract_def py_max_def accepted_positions_def)
  next
    case False
    define M where "M = Max (set (all_positions items))"
    have le: "\<forall>p \<in> set (all_positions items). p \<le> M"
      unfolding M_def by simp
    have M_in: "M \<in> set (all_positions items)"
      unfolding M_def using False by (simp add: Max_in)
    have range: "list_all (\<lambda>p. - int (nat (M + 1)) \<le> p \<and> p < int (nat (M + 1))) (all_positions items)
          \<longleftrightarrow> list_all (\<lambda>p. - (M + 1) \<le> p) (all_positions items)"
    proof (cases "0 \<le> M")
      case True
      with le show ?thesis by (auto simp: list_all_iff)
    next
      case neg: False
      with M_in show ?thesis by (auto simp: list_all_iff)
    qed
    have "(\<exists>s. reconstruct_abstract (Some items) = Inr s)
        \<longleftrightarrow> (\<exists>ws'. place_all items (replicate (nat (M + 1)) []) = Inr ws')"
      using items False
      by (auto simp: reconstruct_abstract_def py_max_Max M_def split: sum.splits)
    also have "\<dots> \<longleftrightarrow> list_all (\<lambda>p. - (M + 1) \<le> p) (all_positions items)"
      using place_all_ok_iff [of items "replicate (nat (M + 1)) []"] range by simp
    finally show ?thesis using items False by (simp add: accepted_positions_def M_def)
  qed
qed

lemma nonneg_accepted:
  "nonneg_positions items \<Longrightarrow> all_positions items \<noteq> [] \<Longrightarrow> accepted_positions items"
proof -
  assume nn: "nonneg_positions items" and ne: "all_positions items \<noteq> []"
  define M where "M = Max (set (all_positions items))"
  have "M \<in> set (all_positions items)"
    unfolding M_def using ne by (simp add: Max_in)
  with nn have M0: "0 \<le> M"
    by (auto simp: nonneg_positions_def list_all_iff)
  have "- (M + 1) \<le> p" if "p \<in> set (all_positions items)" for p
  proof -
    from nn that have "0 \<le> p" by (auto simp: nonneg_positions_def list_all_iff)
    with M0 show ?thesis by linarith
  qed
  with ne show ?thesis
    by (simp add: accepted_positions_def list_all_iff M_def)
qed

lemma reconstruct_abstract_tokens_aux:
  assumes nn: "nonneg_positions items" and ne: "all_positions items \<noteq> []"
    and sf: "space_free items"
  shows "\<exists>s. reconstruct_abstract (Some items) = Inr s
          \<and> int (length (split_space s)) = Max (set (all_positions items)) + 1
          \<and> (\<forall>i < length (split_space s). split_space s ! i = word_at items (int i) [])"
proof -
  define M where "M = Max (set (all_positions items))"
  have items: "items \<noteq> []" using ne by (auto simp: all_positions_def)
  have le: "\<forall>p \<in> set (all_positions items). p \<le> M"
    unfolding M_def by simp
  have "M \<in> set (all_positions items)"
    unfolding M_def using ne by (simp add: Max_in)
  with nn have M0: "0 \<le> M" by (auto simp: nonneg_positions_def list_all_iff)
  define start where "start = replicate (nat (M + 1)) ([] :: string)"
  have len: "int (length start) = M + 1" using M0 by (simp add: start_def)
  have "list_all (\<lambda>p. 0 \<le> p \<and> p < int (length start)) (all_positions items)"
    using nn le len by (auto simp: nonneg_positions_def list_all_iff)
  from place_all_in_range [OF this] obtain ws' where
    ws': "place_all items start = Inr ws'" "length ws' = length start"
      "\<forall>i < length start. ws' ! i = word_at items (int i) (start ! i)"
    by auto
  have at: "\<forall>i < length ws'. ws' ! i = word_at items (int i) []"
    using ws'(2,3) by (simp add: start_def)
  have "list_all (\<lambda>w. CHR '' '' \<notin> set w) ws'"
  proof -
    have "CHR '' '' \<notin> set (ws' ! i)" if "i < length ws'" for i
    proof -
      from word_at_in_words [of items "int i" "[]"] at that
      have "ws' ! i = [] \<or> ws' ! i \<in> fst ` set items" by simp
      with sf show ?thesis by (auto simp: space_free_def list_all_iff)
    qed
    then show ?thesis by (auto simp: list_all_iff in_set_conv_nth)
  qed
  moreover have "ws' \<noteq> []" using ws'(2) len M0 by auto
  ultimately have split: "split_space (join_space ws') = ws'"
    by (simp add: split_join_space)
  have "reconstruct_abstract (Some items) = Inr (join_space ws')"
    using items ne ws'(1)
    by (simp add: reconstruct_abstract_def py_max_Max M_def [symmetric] start_def [symmetric])
  with split at ws'(2) len show ?thesis by (simp add: M_def)
qed


lemma place_all_no_ValueError: "place_all items words \<noteq> Inl ValueError"
proof (induction items arbitrary: words)
  case Nil
  then show ?case by simp
next
  case (Cons it items)
  obtain w ps where it: "it = (w, ps)" by (cases it)
  have pw: "place_word w ps ws \<noteq> Inl ValueError" for ws
    by (induction ps arbitrary: ws)
      (auto simp: list_setitem_def Let_def split: sum.splits if_splits)
  from Cons.IH it pw show ?case by (auto split: sum.splits)
qed

lemma reconstruct_abstract_ValueError_iff:
  "reconstruct_abstract (Some items) = Inl ValueError \<longleftrightarrow> items \<noteq> [] \<and> all_positions items = []"
proof (cases "items = [] \<or> all_positions items = []")
  case True
  then show ?thesis
    by (auto simp: reconstruct_abstract_def py_max_def)
next
  case False
  then show ?thesis
    using place_all_no_ValueError
    by (auto simp: reconstruct_abstract_def py_max_Max split: sum.splits)
qed

subsection \<open>Tokens of the reconstructed abstract\<close>

text \<open>
  Claim C7, as amended.  An absent or empty inverted index yields the empty string.
  For an index with at least one position, all positions non-negative and no space
  inside a word, reconstruction returns a string; split on single spaces it has
  \<open>max(position) + 1\<close> tokens, and the token at each position is the word of the last
  entry (in the dictionary's order) that lists this position, the empty token where no
  entry does.  When no position is listed by two entries, every word stands at every
  one of its listed positions.
\<close>

theorem reconstruct_abstract_tokens:
  "reconstruct_abstract None = Inr []
   \<and> reconstruct_abstract (Some []) = Inr []
   \<and> (nonneg_positions items \<and> all_positions items \<noteq> [] \<and> space_free items \<longrightarrow>
        (\<exists>s. reconstruct_abstract (Some items) = Inr s
           \<and> int (length (split_space s)) = Max (set (all_positions items)) + 1
           \<and> (\<forall>i < length (split_space s). split_space s ! i = word_at items (int i) [])
           \<and> (disjoint_positions items \<longrightarrow>
                (\<forall>(w, ps) \<in> set items. \<forall>p \<in> set ps. split_space s ! nat p = w))))"
proof (intro conjI impI)
  show "reconstruct_abstract None = Inr []"
    by (simp add: reconstruct_abstract_def)
  show "reconstruct_abstract (Some []) = Inr []"
    by (simp add: reconstruct_abstract_def)
next
  assume hyp: "nonneg_positions items \<and> all_positions items \<noteq> [] \<and> space_free items"
  then have nn: "nonneg_positions items" and ne: "all_positions items \<noteq> []"
    and sf: "space_free items"
    by simp_all
  from reconstruct_abstract_tokens_aux [OF nn ne sf] obtain s where
    s: "reconstruct_abstract (Some items) = Inr s"
      "int (length (split_space s)) = Max (set (all_positions items)) + 1"
      "\<forall>i < length (split_space s). split_space s ! i = word_at items (int i) []"
    by blast
  have "split_space s ! nat p = w"
    if dj: "disjoint_positions items" and w: "(w, ps) \<in> set items" and p: "p \<in> set ps"
    for w ps p
  proof -
    from w p have mem: "p \<in> set (all_positions items)"
      by (force simp: all_positions_def)
    with nn have p0: "0 \<le> p"
      by (auto simp: nonneg_positions_def list_all_iff)
    from mem have "p \<le> Max (set (all_positions items))" by simp
    with s(2) p0 have "nat p < length (split_space s)" by linarith
    with s(3) p0 have "split_space s ! nat p = word_at items p []" by simp
    with word_at_listed [OF dj w p] show ?thesis by simp
  qed
  then have "disjoint_positions items \<longrightarrow>
      (\<forall>(w, ps) \<in> set items. \<forall>p \<in> set ps. split_space s ! nat p = w)"
    by blast
  with s show "\<exists>s. reconstruct_abstract (Some items) = Inr s
           \<and> int (length (split_space s)) = Max (set (all_positions items)) + 1
           \<and> (\<forall>i < length (split_space s). split_space s ! i = word_at items (int i) [])
           \<and> (disjoint_positions items \<longrightarrow>
                (\<forall>(w, ps) \<in> set items. \<forall>p \<in> set ps. split_space s ! nat p = w))"
    by blast
qed

text \<open>
  The index of "the cat _ the sat": five slots, slot 2 left empty, "the" at 0 and 3.
\<close>

theorem reconstruct_abstract_tokens_witness:
  "nonneg_positions [(''the'', [0, 3]), (''cat'', [1]), (''sat'', [4])]
   \<and> space_free [(''the'', [0, 3]), (''cat'', [1]), (''sat'', [4])]
   \<and> disjoint_positions [(''the'', [0, 3]), (''cat'', [1]), (''sat'', [4])]
   \<and> (\<exists>s. reconstruct_abstract (Some [(''the'', [0, 3]), (''cat'', [1]), (''sat'', [4])]) = Inr s
         \<and> s = ''the cat  the sat''
         \<and> length (split_space s) = 5
         \<and> split_space s ! 0 = ''the'' \<and> split_space s ! 3 = ''the''
         \<and> split_space s ! 1 = ''cat'' \<and> split_space s ! 4 = ''sat'')"
proof -
  define X :: inverted_index where "X = [(''the'', [0, 3]), (''cat'', [1]), (''sat'', [4])]"
  have hyp: "nonneg_positions X \<and> all_positions X \<noteq> [] \<and> space_free X"
    unfolding X_def by code_simp
  have dj: "disjoint_positions X"
    unfolding X_def by code_simp
  have mx: "Max (set (all_positions X)) = 4"
    unfolding X_def by code_simp
  have val: "reconstruct_abstract (Some X) = Inr ''the cat  the sat''"
    unfolding X_def by code_simp
  from reconstruct_abstract_tokens [of X] hyp dj obtain s where
    s: "reconstruct_abstract (Some X) = Inr s"
      "int (length (split_space s)) = Max (set (all_positions X)) + 1"
      "\<forall>(w, ps) \<in> set X. \<forall>p \<in> set ps. split_space s ! nat p = w"
    by blast
  from s(1) val have eq: "s = ''the cat  the sat''" by simp
  from s(2) mx have len: "length (split_space s) = 5" by simp
  from s(3) have at: "split_space s ! 0 = ''the''" "split_space s ! 3 = ''the''"
    "split_space s ! 1 = ''cat''" "split_space s ! 4 = ''sat''"
    by (simp_all add: X_def)
  from hyp dj s(1) eq len at show ?thesis
    unfolding X_def by blast
qed

text \<open>
  The claim as stated (every index with non-negative positions) fails: two entries
  that list position 0 leave only the later word there; a word with a space in it
  counts as two tokens; and an index whose entries list no position at all raises
  \<open>ValueError\<close> from \<open>max\<close> and returns no string.
\<close>

theorem reconstruct_abstract_shared_position:
  "nonneg_positions [(''a'', [0]), (''b'', [0])]
   \<and> reconstruct_abstract (Some [(''a'', [0]), (''b'', [0])]) = Inr ''b''
   \<and> split_space ''b'' ! 0 \<noteq> ''a''
   \<and> nonneg_positions [(''a b'', [0])]
   \<and> reconstruct_abstract (Some [(''a b'', [0])]) = Inr ''a b''
   \<and> length (split_space ''a b'') = 2
   \<and> nonneg_positions [(''a'', [])]
   \<and> reconstruct_abstract (Some [(''a'', [])]) = Inl ValueError"
  by code_simp

subsection \<open>Errors of abstract reconstruction\<close>

text \<open>
  Claim C9, as amended.  Reconstruction does not validate positions.  For a non-empty
  index it returns a string exactly when some position is listed and every position
  \<open>p\<close> satisfies \<open>- (max_pos + 1) \<le> p\<close>: a negative position in that range is
  accepted and written counting from the end of the word list.  It raises
  \<open>ValueError\<close> exactly when the non-empty index lists no position, and fails
  otherwise only on a position below that range.  An absent or empty index, and an
  index with at least one position and all positions non-negative, never raise.
\<close>

theorem reconstruct_abstract_errors:
  "((\<exists>s. reconstruct_abstract (Some items) = Inr s) \<longleftrightarrow> items = [] \<or> accepted_positions items)
   \<and> (reconstruct_abstract (Some items) = Inl ValueError \<longleftrightarrow>
        items \<noteq> [] \<and> all_positions items = [])
   \<and> (nonneg_positions items \<and> all_positions items \<noteq> [] \<longrightarrow>
        (\<exists>s. reconstruct_abstract (Some items) = Inr s))
   \<and> (\<exists>s. reconstruct_abstract None = Inr s)"
proof (intro conjI impI)
  show "(\<exists>s. reconstruct_abstract (Some items) = Inr s) \<longleftrightarrow> items = [] \<or> accepted_positions items"
    by (rule reconstruct_abstract_ok_iff)
  show "reconstruct_abstract (Some items) = Inl ValueError \<longleftrightarrow>
        items \<noteq> [] \<and> all_positions items = []"
    by (rule reconstruct_abstract_ValueError_iff)
  show "\<exists>s. reconstruct_abstract None = Inr s"
    by (simp add: reconstruct_abstract_def)
next
  assume "nonneg_positions items \<and> all_positions items \<noteq> []"
  then have "accepted_positions items" by (simp add: nonneg_accepted)
  then show "\<exists>s. reconstruct_abstract (Some items) = Inr s"
    by (simp add: reconstruct_abstract_ok_iff)
qed

theorem reconstruct_abstract_errors_witness:
  "nonneg_positions [(''the'', [0, 3]), (''cat'', [1])]
   \<and> all_positions [(''the'', [0, 3]), (''cat'', [1])] \<noteq> []
   \<and> (\<exists>s. reconstruct_abstract (Some [(''the'', [0, 3]), (''cat'', [1])]) = Inr s)
   \<and> accepted_positions [(''a'', [0]), (''b'', [-1])]
   \<and> (\<exists>s. reconstruct_abstract (Some [(''a'', [0]), (''b'', [-1])]) = Inr s)
   \<and> \<not> accepted_positions [(''a'', [0]), (''b'', [-2])]
   \<and> (\<nexists>s. reconstruct_abstract (Some [(''a'', [0]), (''b'', [-2])]) = Inr s)"
proof -
  have h1: "nonneg_positions [(''the'', [0, 3]), (''cat'', [1])]
      \<and> all_positions [(''the'', [0, 3]), (''cat'', [1])] \<noteq> []"
    by code_simp
  have h2: "accepted_positions [(''a'', [0]), (''b'', [-1])]"
    by (simp add: accepted_positions_def all_positions_def)
  have h3: "\<not> accepted_positions [(''a'', [0]), (''b'', [-2])]"
    by (simp add: accepted_positions_def all_positions_def)
  have ne: "[(''a'', [0]), (''b'', [-2 :: int])] \<noteq> []" by simp
  from reconstruct_abstract_errors [of "[(''the'', [0, 3]), (''cat'', [1])]"] h1
  have c1: "\<exists>s. reconstruct_abstract (Some [(''the'', [0, 3]), (''cat'', [1])]) = Inr s"
    by blast
  from reconstruct_abstract_errors [of "[(''a'', [0]), (''b'', [-1])]"] h2
  have c2: "\<exists>s. reconstruct_abstract (Some [(''a'', [0]), (''b'', [-1])]) = Inr s"
    by blast
  from reconstruct_abstract_errors [of "[(''a'', [0]), (''b'', [-2])]"] h3 ne
  have c3: "\<nexists>s. reconstruct_abstract (Some [(''a'', [0]), (''b'', [-2])]) = Inr s"
    by blast
  from h1 h2 h3 c1 c2 c3 show ?thesis by blast
qed

text \<open>
  The claim as stated fails: an index with the negative position \<open>-1\<close> is not
  rejected; the position is taken from the end, and a string is returned.
\<close>

theorem reconstruct_abstract_negative_accepted:
  "\<not> nonneg_positions [(''a'', [0]), (''b'', [-1])]
   \<and> reconstruct_abstract (Some [(''a'', [0]), (''b'', [-1])]) = Inr ''b''"
  by code_simp

section \<open>The record limit 0\<close>

text \<open>
  Claim C10.  With \<open>--max 0\<close> no truncation is applied: the run keeps every record
  that is left after the start offset, exactly as with no \<open>--max\<close> at all, and not
  zero records.  The limit slice is taken only when \<open>max\<close> is truthy, and the start
  slice only when \<open>start\<close> is nonzero (with \<open>start = 0\<close> the lines are untouched).
\<close>

theorem max_zero_keeps_all:
  "load_lines start (Some 0) lines = load_lines start None lines
   \<and> load_lines start (Some 0) lines = apply_start start lines
   \<and> load_lines 0 (Some 0) lines = lines
   \<and> (m \<noteq> 0 \<longrightarrow> load_lines start (Some m) lines = slice_to (apply_start start lines) m)
   \<and> (start \<noteq> 0 \<longrightarrow> apply_start start lines = slice_from lines start)"
  by (simp add: load_lines_def apply_max_def apply_start_def)

theorem max_zero_keeps_all_witness:
  "load_lines 1 (Some 0) [10, 20, 30 :: nat] = [20, 30]
   \<and> load_lines 1 (Some 2) [10, 20, 30, 40 :: nat] = [20, 30]
   \<and> load_lines 0 (Some 0) [10, 20, 30 :: nat] = [10, 20, 30]"
  using max_zero_keeps_all [of 1 "[10, 20, 30 :: nat]" 2]
    max_zero_keeps_all [of 1 "[10, 20, 30, 40 :: nat]" 2]
  by (simp add: load_lines_def apply_max_def apply_start_def slice_from_def slice_to_def)

section \<open>Properties of batch building\<close>



lemma make_batch_length: "make_batch ls = Inr ps \<Longrightarrow> length ps = length ls"
  by (induction ls arbitrary: ps) (auto split: sum.splits)


lemma build_from_nonempty:
  "0 < bsize \<Longrightarrow> build_from start bsize i lines = Inr batches \<Longrightarrow>
   list_all (\<lambda>b. snd b \<noteq> []) batches"
proof (induction start bsize i lines arbitrary: batches rule: build_from.induct)
  case (1 start bsize i lines)
  show ?case
  proof (cases "length lines \<le> i")
    case True
    with "1.prems" show ?thesis by (simp add: build_from.simps [of start bsize i lines])
  next
    case False
    with "1.prems" obtain batch rest where
      batch: "make_batch (take bsize (drop i lines)) = Inr batch"
      and rest: "build_from start bsize (i + bsize) lines = Inr rest"
      and res: "batches = (int i + start, batch) # rest"
      by (auto simp: build_from.simps [of start bsize i lines] split: sum.splits)
    from make_batch_length [OF batch] False "1.prems"(1) have "batch \<noteq> []"
      by auto
    moreover from "1.IH" [OF _ batch "1.prems"(1) rest] False "1.prems"(1)
    have "list_all (\<lambda>b. snd b \<noteq> []) rest" by simp
    ultimately show ?thesis using res by simp
  qed
qed



subsection \<open>Batches partition the sliced input\<close>



section \<open>Properties of resuming\<close>

lemma resume_scan_ids:
  "resume_scan True (Some out_lines) = {pid. \<exists>ids. Logged ids \<in> set out_lines \<and> pid \<in> set ids}"
proof -
  have ins: "fold insert ids S = set ids \<union> S" for ids :: "string option list" and S
    by (induction ids arbitrary: S) auto
  have "fold (\<lambda>line processed_ids.
               case line of Garbled \<Rightarrow> processed_ids
               | Logged ids \<Rightarrow> fold insert ids processed_ids) out_lines S
        = S \<union> {pid. \<exists>ids. Logged ids \<in> set out_lines \<and> pid \<in> set ids}" for S
  proof (induction out_lines arbitrary: S)
    case Nil
    then show ?case by simp
  next
    case (Cons l ls)
    show ?case
    proof (cases l)
      case Garbled
      with Cons show ?thesis by auto
    next
      case (Logged ids)
      with Cons ins show ?thesis by auto
    qed
  qed
  from this [of "{}"] show ?thesis by (simp add: resume_scan_def)
qed

text \<open>
  Claim C2.  For the batches that batch building returns (batch size at least 1) and
  every resume set, in particular the set of ids accumulated from the existing output
  log, the resume filter keeps, in order and unchanged, exactly the batches that are not
  fully covered: a batch is dropped if and only if all of its member ids are in the
  resume set, and a batch with an uncovered id stays whole, its covered members
  included.
\<close>

theorem resume_skips_exactly_covered:
  assumes "1 \<le> batch_size"
    and "build_batches start batch_size lines = Inr batches"
  shows "skip_processed processed_ids batches
           = filter (\<lambda>b. \<not> fully_covered processed_ids b) batches
     \<and> (\<forall>b. b \<in> set (skip_processed processed_ids batches)
            \<longleftrightarrow> b \<in> set batches \<and> \<not> fully_covered processed_ids b)
     \<and> (resume_scan True (Some out_lines) = processed_ids \<longrightarrow>
          (\<forall>pid. pid \<in> processed_ids
             \<longleftrightarrow> (\<exists>ids. Logged ids \<in> set out_lines \<and> pid \<in> set ids)))"
proof -
  from assms have "build_from start (nat batch_size) 0 lines = Inr batches"
    by (simp add: build_batches_def)
  with assms(1) have ne: "list_all (\<lambda>b. snd b \<noteq> []) batches"
    by (intro build_from_nonempty [of "nat batch_size" start 0 lines]) simp_all
  have cov: "(\<lambda>(idx, batch). \<not> list_all (\<lambda>b. paper_id b \<in> processed_ids) batch)
      = (\<lambda>b. \<not> fully_covered processed_ids b)"
    by (auto simp: fully_covered_def list_all_iff fun_eq_iff)
  have eq: "skip_processed processed_ids batches
      = filter (\<lambda>b. \<not> fully_covered processed_ids b) batches"
  proof (cases "processed_ids = {}")
    case True
    have "\<not> fully_covered {} b" if "b \<in> set batches" for b
      using ne that by (auto simp: fully_covered_def list_all_iff)
    then have "filter (\<lambda>b. \<not> fully_covered {} b) batches = batches"
      by (simp add: filter_id_conv)
    with True show ?thesis by (simp add: skip_processed_def)
  next
    case False
    then show ?thesis by (simp add: skip_processed_def cov)
  qed
  moreover from eq have "\<forall>b. b \<in> set (skip_processed processed_ids batches)
      \<longleftrightarrow> b \<in> set batches \<and> \<not> fully_covered processed_ids b"
    by auto
  moreover have "resume_scan True (Some out_lines) = processed_ids \<longrightarrow>
      (\<forall>pid. pid \<in> processed_ids \<longleftrightarrow> (\<exists>ids. Logged ids \<in> set out_lines \<and> pid \<in> set ids))"
    by (auto simp: resume_scan_ids)
  ultimately show ?thesis by blast
qed

text \<open>
  Three lines in batches of two, and a log (with one unreadable line) that covers the
  ids \<open>a\<close> and \<open>b\<close>: the first batch is dropped and the second kept.  With only \<open>a\<close>
  covered both batches are submitted again, the first as a whole.
\<close>

theorem resume_skips_exactly_covered_witness:
  "\<exists>batches.
     build_batches 0 2
       [Row \<lparr>row_id = Value ''a'', row_title = Absent, abstract_inverted_index = Absent,
              authorships = Absent, publication_year = Absent, row_year = Absent\<rparr>,
        Row \<lparr>row_id = Value ''b'', row_title = Absent, abstract_inverted_index = Absent,
              authorships = Absent, publication_year = Absent, row_year = Absent\<rparr>,
        Row \<lparr>row_id = Value ''c'', row_title = Absent, abstract_inverted_index = Absent,
              authorships = Absent, publication_year = Absent, row_year = Absent\<rparr>] = Inr batches
     \<and> map (map paper_id \<circ> snd) batches = [[Some ''a'', Some ''b''], [Some ''c'']]
     \<and> resume_scan True (Some [Logged [Some ''a''], Garbled, Logged [Some ''b'']])
         = {Some ''a'', Some ''b''}
     \<and> skip_processed {Some ''a'', Some ''b''} batches = [batches ! 1]
     \<and> skip_processed {Some ''a''} batches = batches"
proof -
  define mk where "mk i = Row \<lparr>row_id = Value i, row_title = Absent,
     abstract_inverted_index = Absent, authorships = Absent, publication_year = Absent,
     row_year = Absent\<rparr>" for i
  define pp where "pp i = \<lparr>paper_id = Some i, paper_title = Some [], paper_first_author = Some [],
     paper_year = NA, paper_abstract = []\<rparr>" for i :: string
  define batches where "batches = [(0 :: int, [pp ''a'', pp ''b'']), (2, [pp ''c''])]"
  have mkp: "make_paper (mk i) = Inr (pp i)" for i
    by (simp add: mk_def pp_def make_paper_def reconstruct_abstract_def first_author_of_def
        pub_year_of_def or_year_def dict_get_def dict_get_default_def)
  have built: "build_batches 0 2 [mk ''a'', mk ''b'', mk ''c''] = Inr batches"
    by (simp add: build_batches_def build_from.simps mkp batches_def)
  have ids: "map (map paper_id \<circ> snd) batches = [[Some ''a'', Some ''b''], [Some ''c'']]"
    by (simp add: batches_def pp_def)
  have scan: "resume_scan True (Some [Logged [Some ''a''], Garbled, Logged [Some ''b'']])
      = {Some ''a'', Some ''b''}"
    by (auto simp: resume_scan_def)
  have two: "(1 :: int) \<le> 2" by simp
  from resume_skips_exactly_covered [OF two built, of "{Some ''a'', Some ''b''}"]
  have "skip_processed {Some ''a'', Some ''b''} batches
      = filter (\<lambda>b. \<not> fully_covered {Some ''a'', Some ''b''} b) batches"
    by (rule conjunct1)
  then have s1: "skip_processed {Some ''a'', Some ''b''} batches = [batches ! 1]"
    by (simp add: batches_def fully_covered_def pp_def)
  from resume_skips_exactly_covered [OF two built, of "{Some ''a''}"]
  have "skip_processed {Some ''a''} batches
      = filter (\<lambda>b. \<not> fully_covered {Some ''a''} b) batches"
    by (rule conjunct1)
  then have s2: "skip_processed {Some ''a''} batches = batches"
    by (simp add: batches_def fully_covered_def pp_def)
  from built ids scan s1 s2 show ?thesis
    unfolding mk_def by (intro exI [of _ batches] conjI)
qed

section \<open>Properties of model-output parsing\<close>

lemma str_find_notin: "c \<notin> set t \<Longrightarrow> str_find c t = - 1"
  by (induction t) (auto simp: Let_def)

lemma str_find_in: "c \<in> set t \<Longrightarrow> str_find c t = int (length (takeWhile (\<lambda>x. x \<noteq> c) t))"
proof (induction t)
  case Nil
  then show ?case by simp
next
  case (Cons x xs)
  show ?case
  proof (cases "x = c")
    case True
    then show ?thesis by simp
  next
    case False
    with Cons show ?thesis by (simp add: Let_def)
  qed
qed

lemma str_find_neg_iff: "str_find c t = - 1 \<longleftrightarrow> c \<notin> set t"
  using str_find_notin [of c t] str_find_in [of c t] by auto

lemma takeWhile_short:
  "c \<in> set xs \<Longrightarrow> length (takeWhile (\<lambda>x. x \<noteq> c) xs) < length xs"
  by (induction xs) auto

lemma str_rfind_in:
  "c \<in> set t \<Longrightarrow>
   str_rfind c t = int (length t) - 1 - int (length (takeWhile (\<lambda>x. x \<noteq> c) (rev t)))"
proof -
  assume c: "c \<in> set t"
  then have r: "str_find c (rev t) = int (length (takeWhile (\<lambda>x. x \<noteq> c) (rev t)))"
    by (simp add: str_find_in)
  then have "str_find c (rev t) \<noteq> - 1" by simp
  with r show ?thesis by (simp add: str_rfind_def Let_def)
qed

lemma str_rfind_neg_iff: "str_rfind c t = - 1 \<longleftrightarrow> c \<notin> set t"
proof (cases "c \<in> set t")
  case True
  have "length (takeWhile (\<lambda>x. x \<noteq> c) (rev t)) < length (rev t)"
    using True by (intro takeWhile_short) simp
  with True show ?thesis
    by (simp add: str_rfind_in)
next
  case False
  then show ?thesis by (simp add: str_rfind_def str_find_notin)
qed

text \<open>The bracket test of the code and the substring it cuts, in list terms.\<close>

lemma bracket_slice:
  fixes t :: string
  defines "from_open \<equiv> dropWhile (\<lambda>c. c \<noteq> CHR ''['') t"
  defines "start \<equiv> str_find CHR ''['' t"
  defines "end' \<equiv> str_rfind CHR '']'' t"
  shows "(start \<noteq> - 1 \<and> end' \<noteq> - 1 \<and> end' > start) \<longleftrightarrow> CHR '']'' \<in> set from_open"
    and "CHR '']'' \<in> set from_open \<Longrightarrow>
         py_slice t start (end' + 1) = rev (dropWhile (\<lambda>c. c \<noteq> CHR '']'') (rev from_open))"
proof -
  define pre where "pre = takeWhile (\<lambda>c. c \<noteq> CHR ''['') t"
  define i where "i = length pre"
  have split: "pre @ from_open = t"
    by (simp add: pre_def from_open_def)
  have drop: "from_open = drop i t"
    by (simp add: from_open_def i_def pre_def dropWhile_eq_drop)
  have "length (pre @ from_open) = length t"
    by (simp only: split)
  then have len: "length t = i + length from_open"
    by (simp add: i_def)
  have no_close_hd: "from_open \<noteq> [] \<Longrightarrow> hd from_open = CHR ''[''"
    unfolding from_open_def using hd_dropWhile [of "\<lambda>c. c \<noteq> CHR ''[''" t] by simp
  have in_open: "CHR '']'' \<in> set from_open \<Longrightarrow> CHR ''['' \<in> set t"
  proof -
    assume "CHR '']'' \<in> set from_open"
    then have "from_open \<noteq> []" by auto
    then show "CHR ''['' \<in> set t"
      unfolding from_open_def by (auto simp: dropWhile_eq_Nil_conv)
  qed
  have start_i: "CHR ''['' \<in> set t \<Longrightarrow> start = int i"
    by (simp add: start_def i_def pre_def str_find_in)
  define k where "k = length (takeWhile (\<lambda>c. c \<noteq> CHR '']'') (rev t))"
  have end_k: "CHR '']'' \<in> set t \<Longrightarrow> end' = int (length t) - 1 - int k"
    by (simp add: end'_def k_def str_rfind_in)
  have k_lt: "CHR '']'' \<in> set t \<Longrightarrow> k < length t"
    unfolding k_def using takeWhile_short [of "CHR '']''" "rev t"] by simp
  have k_open: "k = length (takeWhile (\<lambda>c. c \<noteq> CHR '']'') (rev from_open))"
    and k_small: "k + 1 < length from_open"
    if mem: "CHR '']'' \<in> set from_open"
  proof -
    have "rev (pre @ from_open) = rev t" by (simp only: split)
    then have "rev t = rev from_open @ rev pre" by simp
    moreover have "\<exists>x \<in> set (rev from_open). \<not> x \<noteq> CHR '']''" using mem by simp
    ultimately have "takeWhile (\<lambda>c. c \<noteq> CHR '']'') (rev t)
        = takeWhile (\<lambda>c. c \<noteq> CHR '']'') (rev from_open)"
      by (simp add: takeWhile_append1)
    then show k1: "k = length (takeWhile (\<lambda>c. c \<noteq> CHR '']'') (rev from_open))"
      by (simp add: k_def)
    from mem obtain rest where fo: "from_open = CHR ''['' # rest"
      using no_close_hd by (cases from_open) auto
    with mem have "CHR '']'' \<in> set rest" by simp
    then have "length (takeWhile (\<lambda>c. c \<noteq> CHR '']'') (rev rest)) < length (rev rest)"
      by (intro takeWhile_short) simp
    moreover have "takeWhile (\<lambda>c. c \<noteq> CHR '']'') (rev from_open)
        = takeWhile (\<lambda>c. c \<noteq> CHR '']'') (rev rest)"
      using fo \<open>CHR '']'' \<in> set rest\<close> by (simp add: takeWhile_append1)
    ultimately show "k + 1 < length from_open"
      using k1 fo by simp
  qed
  show "(start \<noteq> - 1 \<and> end' \<noteq> - 1 \<and> end' > start) \<longleftrightarrow> CHR '']'' \<in> set from_open"
  proof
    assume a: "start \<noteq> - 1 \<and> end' \<noteq> - 1 \<and> end' > start"
    then have o: "CHR ''['' \<in> set t" and c: "CHR '']'' \<in> set t"
      by (simp_all add: start_def end'_def str_find_neg_iff str_rfind_neg_iff)
    from a start_i [OF o] end_k [OF c] have gt: "int i < int (length t) - 1 - int k"
      by simp
    define j where "j = length t - 1 - k"
    have j: "i < j" "j < length t" using gt k_lt [OF c] by (simp_all add: j_def)
    have "rev t ! k = CHR '']''"
      using nth_length_takeWhile [of "\<lambda>c. c \<noteq> CHR '']''" "rev t"] k_lt [OF c]
      by (simp add: k_def)
    then have "t ! j = CHR '']''"
      using k_lt [OF c] by (simp add: rev_nth j_def)
    moreover have "t ! j = from_open ! (j - i)"
      using j by (simp add: drop)
    moreover have "j - i < length from_open" using j len by simp
    ultimately show "CHR '']'' \<in> set from_open"
      using nth_mem [of "j - i" from_open] by simp
  next
    assume mem: "CHR '']'' \<in> set from_open"
    have o: "CHR ''['' \<in> set t" by (rule in_open [OF mem])
    have "set from_open \<subseteq> set (pre @ from_open)" by simp
    with mem have c: "CHR '']'' \<in> set t" by (auto simp only: split)
    from start_i [OF o] end_k [OF c] k_small [OF mem] len
    show "start \<noteq> - 1 \<and> end' \<noteq> - 1 \<and> end' > start"
      by simp
  qed
  show "py_slice t start (end' + 1) = rev (dropWhile (\<lambda>c. c \<noteq> CHR '']'') (rev from_open))"
    if mem: "CHR '']'' \<in> set from_open"
  proof -
    have o: "CHR ''['' \<in> set t" by (rule in_open [OF mem])
    have "set from_open \<subseteq> set (pre @ from_open)" by simp
    with mem have c: "CHR '']'' \<in> set t" by (auto simp only: split)
    have s: "start = int i" by (rule start_i [OF o])
    have e: "end' + 1 = int (length t) - int k" using end_k [OF c] by simp
    have ks: "k + 1 < length from_open" by (rule k_small [OF mem])
    have "py_slice t start (end' + 1) = take (length from_open - k) (drop i t)"
      using s e ks len by (simp add: py_slice_def Let_def min_def nat_diff_distrib')
    also have "\<dots> = take (length from_open - k) from_open"
      by (simp add: drop)
    also have "\<dots> = rev (drop k (rev from_open))"
      by (simp add: rev_drop)
    also have "drop k (rev from_open) = dropWhile (\<lambda>c. c \<noteq> CHR '']'') (rev from_open)"
      using k_open [OF mem] by (simp add: dropWhile_eq_drop)
    finally show ?thesis .
  qed
qed

lemma parse_model_json_spec_eq: "parse_model_json loads text0 = parse_spec loads text0"
proof -
  define t where "t = strip text0"
  define start where "start = str_find CHR ''['' t"
  define end' where "end' = str_rfind CHR '']'' t"
  define found where "found = (start \<noteq> - 1 \<and> end' \<noteq> - 1 \<and> end' > start)"
  have ja: "(case loads s of None \<Rightarrow> None | Some obj \<Rightarrow> as_list obj) = json_array loads s" for s
    by (simp add: json_array_def as_list_def split: option.splits json.splits)
  have code: "parse_model_json loads text0 =
      (case json_array loads t of
         Some xs \<Rightarrow> Some xs
       | None \<Rightarrow> if found then json_array loads (py_slice t start (end' + 1)) else None)"
    unfolding parse_model_json_def Let_def ja t_def start_def end'_def found_def ..
  have f: "found \<longleftrightarrow> CHR '']'' \<in> set (dropWhile (\<lambda>c. c \<noteq> CHR ''['') t)"
    unfolding found_def start_def end'_def by (rule bracket_slice(1))
  show ?thesis
  proof (cases found)
    case True
    with f have "py_slice t start (end' + 1)
        = rev (dropWhile (\<lambda>c. c \<noteq> CHR '']'') (rev (dropWhile (\<lambda>c. c \<noteq> CHR ''['') t)))"
      unfolding start_def end'_def by (intro bracket_slice(2)) simp
    with True f have "enclosed t = Some (py_slice t start (end' + 1))"
      by (simp add: enclosed_def)
    with True show ?thesis
      by (simp add: code parse_spec_def t_def split: option.splits)
  next
    case False
    with f have "enclosed t = None" by (simp add: enclosed_def)
    with False show ?thesis
      by (simp add: code parse_spec_def t_def split: option.splits)
  qed
qed

text \<open>The enclosed substring starts at the first \<open>[\<close> and ends at the last \<open>]\<close>.\<close>

lemma enclosed_Some:
  assumes "enclosed t = Some s"
  shows "\<exists>before after. t = before @ s @ after
           \<and> CHR ''['' \<notin> set before \<and> CHR '']'' \<notin> set after
           \<and> s \<noteq> [] \<and> hd s = CHR ''['' \<and> last s = CHR '']''"
proof -
  define from_open where "from_open = dropWhile (\<lambda>c. c \<noteq> CHR ''['') t"
  define before where "before = takeWhile (\<lambda>c. c \<noteq> CHR ''['') t"
  define closing where "closing = dropWhile (\<lambda>c. c \<noteq> CHR '']'') (rev from_open)"
  define after where "after = rev (takeWhile (\<lambda>c. c \<noteq> CHR '']'') (rev from_open))"
  from assms have mem: "CHR '']'' \<in> set from_open" and s: "s = rev closing"
    by (auto simp: enclosed_def Let_def from_open_def closing_def split: if_splits)
  have t: "t = before @ from_open"
    by (simp add: before_def from_open_def)
  have "rev from_open = rev after @ closing"
    by (simp add: after_def closing_def)
  then have "rev (rev from_open) = rev (rev after @ closing)" by (simp only:)
  then have fo: "from_open = s @ after" by (simp add: s)
  have b: "CHR ''['' \<notin> set before"
    unfolding before_def by (auto dest: set_takeWhileD)
  have a: "CHR '']'' \<notin> set after"
    unfolding after_def by (auto dest: set_takeWhileD)
  have closing_ne: "closing \<noteq> []"
    unfolding closing_def using mem by (auto simp: dropWhile_eq_Nil_conv)
  then have ne: "s \<noteq> []" by (simp add: s)
  have "hd closing = CHR '']''"
    using hd_dropWhile [of "\<lambda>c. c \<noteq> CHR '']''" "rev from_open"] closing_ne
    by (simp add: closing_def)
  then have l: "last s = CHR '']''"
    using closing_ne by (simp add: s last_rev)
  have "from_open \<noteq> []" using mem by auto
  then have "hd from_open = CHR ''[''"
    using hd_dropWhile [of "\<lambda>c. c \<noteq> CHR ''[''" t] by (simp add: from_open_def)
  with fo ne have h: "hd s = CHR ''[''" by simp
  from t fo b a ne h l show ?thesis by auto
qed

subsection \<open>Direct parse, then bracket extraction\<close>

text \<open>
  Claim C6.  For every behaviour of \<open>json.loads\<close> and every response text,
  \<open>parse_model_json\<close> computes what the specification describes: the array that the
  trimmed text parses to; failing that, the array that the substring from the first
  \<open>[\<close> to the last \<open>]\<close> parses to; and null when both attempts fail (no such substring,
  or one that is not a JSON array).  In particular the text
  \<open>Here you go: [{"id":1}]\<close>, which is not JSON as a whole, is parsed through the
  bracket fallback to the array of its enclosed substring.
\<close>

theorem parse_model_json_fallback:
  \<open>parse_model_json loads text = parse_spec loads text
   \<and> (json_array loads (strip text) = Some xs \<longrightarrow> parse_model_json loads text = Some xs)
   \<and> (json_array loads (strip text) = None \<and> enclosed (strip text) = Some s \<longrightarrow>
        parse_model_json loads text = json_array loads s
        \<and> (\<exists>before after. strip text = before @ s @ after
              \<and> CHR ''['' \<notin> set before \<and> CHR '']'' \<notin> set after
              \<and> hd s = CHR ''['' \<and> last s = CHR '']''))
   \<and> (json_array loads (strip text) = None \<and> enclosed (strip text) = None \<longrightarrow>
        parse_model_json loads text = None)
   \<and> (loads ''Here you go: [{"id":1}]'' = None \<and> loads ''[{"id":1}]'' = Some (JArray ys) \<longrightarrow>
        parse_model_json loads ''Here you go: [{"id":1}]'' = Some ys)\<close>
proof (intro conjI impI)
  show \<open>parse_model_json loads text = parse_spec loads text\<close>
    by (rule parse_model_json_spec_eq)
next
  assume \<open>json_array loads (strip text) = Some xs\<close>
  then show \<open>parse_model_json loads text = Some xs\<close>
    by (simp add: parse_model_json_spec_eq parse_spec_def)
next
  assume \<open>json_array loads (strip text) = None \<and> enclosed (strip text) = Some s\<close>
  then show \<open>parse_model_json loads text = json_array loads s\<close>
    by (simp add: parse_model_json_spec_eq parse_spec_def)
next
  assume \<open>json_array loads (strip text) = None \<and> enclosed (strip text) = Some s\<close>
  then have \<open>enclosed (strip text) = Some s\<close> by simp
  from enclosed_Some [OF this]
  show \<open>\<exists>before after. strip text = before @ s @ after
      \<and> CHR ''['' \<notin> set before \<and> CHR '']'' \<notin> set after
      \<and> hd s = CHR ''['' \<and> last s = CHR '']''\<close>
    by blast
next
  assume \<open>json_array loads (strip text) = None \<and> enclosed (strip text) = None\<close>
  then show \<open>parse_model_json loads text = None\<close>
    by (simp add: parse_model_json_spec_eq parse_spec_def)
next
  assume h: \<open>loads ''Here you go: [{"id":1}]'' = None \<and> loads ''[{"id":1}]'' = Some (JArray ys)\<close>
  have st: \<open>strip ''Here you go: [{"id":1}]'' = ''Here you go: [{"id":1}]''\<close>
    by (simp add: strip_def py_isspace_def)
  have en: \<open>enclosed ''Here you go: [{"id":1}]'' = Some ''[{"id":1}]''\<close>
    by (simp add: enclosed_def)
  from h show \<open>parse_model_json loads ''Here you go: [{"id":1}]'' = Some ys\<close>
    by (simp add: parse_model_json_spec_eq parse_spec_def st en json_array_def)
qed

text \<open>
  A \<open>json.loads\<close> that accepts the enclosed array and rejects every other string, as
  Python's does the whole response.
\<close>

theorem parse_model_json_fallback_witness:
  \<open>parse_model_json
     (\<lambda>s. if s = ''[{"id":1}]'' then Some (JArray [JObject [(''id'', JNumber 1)]]) else None)
     ''Here you go: [{"id":1}]''
   = Some [JObject [(''id'', JNumber 1)]]\<close>
proof -
  define loads :: \<open>string \<Rightarrow> json option\<close> where
    \<open>loads = (\<lambda>s. if s = ''[{"id":1}]'' then Some (JArray [JObject [(''id'', JNumber 1)]]) else None)\<close>
  have h: \<open>loads ''Here you go: [{"id":1}]'' = None
      \<and> loads ''[{"id":1}]'' = Some (JArray [JObject [(''id'', JNumber 1)]])\<close>
    by (simp add: loads_def)
  from h parse_model_json_fallback
      [where loads = loads and ys = \<open>[JObject [(''id'', JNumber 1)]]\<close>,
       THEN conjunct2, THEN conjunct2, THEN conjunct2, THEN conjunct2]
  have \<open>parse_model_json loads ''Here you go: [{"id":1}]'' = Some [JObject [(''id'', JNumber 1)]]\<close>
    by (rule rev_mp)
  then show ?thesis by (simp only: loads_def)
qed

section \<open>Properties of the rate limiter\<close>

lemma evict_trailing: "sorted ts \<Longrightarrow> evict now ts = trailing now ts"
proof (induction ts)
  case Nil
  then show ?case by (simp add: trailing_def)
next
  case (Cons t ts)
  show ?case
  proof (cases "now - t > 60")
    case True
    with Cons show ?thesis by (simp add: trailing_def)
  next
    case False
    with Cons.prems have "\<forall>x \<in> set (t # ts). now - x \<le> 60" by auto
    then have "filter (\<lambda>x. now - x \<le> 60) (t # ts) = t # ts"
      by (simp only: filter_id_conv)
    with False show ?thesis by (simp add: trailing_def)
  qed
qed

lemma sorted_trailing: "sorted ts \<Longrightarrow> sorted (trailing now ts)"
  by (simp add: trailing_def sorted_wrt_filter)

lemma trailing_later: "now \<le> now' \<Longrightarrow> trailing now' (trailing now ts) = trailing now' ts"
  unfolding trailing_def filter_filter by (rule filter_cong) auto

lemma wait_for_slot_first_room:
  "sorted ts \<Longrightarrow> sorted clock \<Longrightarrow>
   wait_for_slot cpm clock ts =
     (case dropWhile (\<lambda>now. \<not> room cpm ts now) clock of
        [] \<Rightarrow> None
      | now # rest \<Rightarrow> Some (trailing now ts @ [now], rest))"
proof (induction clock arbitrary: ts)
  case Nil
  then show ?case by simp
next
  case (Cons now clock)
  have ev: "evict now ts = trailing now ts" by (rule evict_trailing [OF Cons.prems(1)])
  show ?case
  proof (cases "room cpm ts now")
    case True
    then show ?thesis by (simp add: try_slot_def ev room_def)
  next
    case False
    have later: "\<forall>n \<in> set clock. now \<le> n" using Cons.prems(2) by simp
    define D where "D = dropWhile (\<lambda>n. \<not> room cpm ts n) clock"
    have step: "wait_for_slot cpm (now # clock) ts = wait_for_slot cpm clock (trailing now ts)"
      using False by (simp add: try_slot_def ev room_def)
    have dw: "dropWhile (\<lambda>n. \<not> room cpm ts n) (now # clock) = D"
      using False by (simp add: D_def)
    have "dropWhile (\<lambda>n. \<not> room cpm (trailing now ts) n) clock = D"
      unfolding D_def using later
      by (intro dropWhile_cong) (simp_all add: room_def trailing_later)
    moreover have "wait_for_slot cpm clock (trailing now ts) =
        (case dropWhile (\<lambda>n. \<not> room cpm (trailing now ts) n) clock of
           [] \<Rightarrow> None
         | n # rest \<Rightarrow> Some (trailing n (trailing now ts) @ [n], rest))"
      using Cons.prems by (intro Cons.IH) (simp_all add: sorted_trailing)
    ultimately have ih: "wait_for_slot cpm clock (trailing now ts) =
        (case D of [] \<Rightarrow> None
         | n # rest \<Rightarrow> Some (trailing n (trailing now ts) @ [n], rest))"
      by simp
    show ?thesis
    proof (cases D)
      case Nil
      with ih step dw show ?thesis by simp
    next
      case (Cons n rest)
      then have "n \<in> set D" by simp
      then have "n \<in> set clock" unfolding D_def by (rule set_dropWhileD)
      with later have "now \<le> n" by simp
      then have "trailing n (trailing now ts) = trailing n ts" by (rule trailing_later)
      with ih step dw Cons show ?thesis by simp
    qed
  qed
qed


text \<open>Eviction of a sorted queue drops a prefix of timestamps older than 60 seconds.\<close>

lemma evict_split:
  "sorted ts \<Longrightarrow> \<exists>dropped. ts = dropped @ evict now ts \<and> (\<forall>t \<in> set dropped. t < now - 60)
     \<and> (\<forall>t \<in> set (evict now ts). now - 60 \<le> t)"
proof (induction ts)
  case Nil
  then show ?case by simp
next
  case (Cons t ts)
  show ?case
  proof (cases "now - t > 60")
    case True
    from Cons obtain dropped where d: "ts = dropped @ evict now ts"
      "\<forall>t \<in> set dropped. t < now - 60" "\<forall>t \<in> set (evict now ts). now - 60 \<le> t"
      by auto
    from d(1) have "t # ts = (t # dropped) @ evict now ts" by simp
    moreover from d(2) True have "\<forall>x \<in> set (t # dropped). x < now - 60" by auto
    ultimately show ?thesis using d(3) True
      by (intro exI [of _ "t # dropped"]) simp
  next
    case False
    with Cons.prems have "\<forall>x \<in> set (t # ts). now - 60 \<le> x" by auto
    with False show ?thesis by (intro exI [of _ "[]"]) simp
  qed
qed

lemma admitted_window_aux:
  assumes "sorted nows" and "\<forall>n \<in> set nows. c \<le> n"
    and "past = old @ ts" and "sorted past" and "\<forall>t \<in> set past. t \<le> c"
    and "\<forall>t \<in> set old. t < c - 60"
    and "window_bound cpm past"
  shows "window_bound cpm (past @ admitted cpm nows ts)"
  using assms
proof (induction nows arbitrary: c past old ts)
  case Nil
  then show ?case by simp
next
  case (Cons now nows)
  have c_now: "c \<le> now" using Cons.prems(2) by simp
  have sorted_ts: "sorted ts" using Cons.prems(3,4) by (simp add: sorted_append)
  from evict_split [OF sorted_ts, of now] obtain dropped where
    d: "ts = dropped @ evict now ts" "\<forall>t \<in> set dropped. t < now - 60"
      "\<forall>t \<in> set (evict now ts). now - 60 \<le> t"
    by blast
  define kept where "kept = evict now ts"
  define old' where "old' = old @ dropped"
  have past: "past = old' @ kept"
    using Cons.prems(3) d(1) by (simp add: old'_def kept_def)
  have old': "\<forall>t \<in> set old'. t < now - 60"
    using Cons.prems(6) d(2) c_now by (auto simp: old'_def)
  have nows: "sorted nows" "\<forall>n \<in> set nows. now \<le> n"
    using Cons.prems(1) by simp_all
  have le_now: "\<forall>t \<in> set past. t \<le> now"
    using Cons.prems(5) c_now by auto
  show ?case
  proof (cases "int (length kept) < cpm")
    case False
    have "window_bound cpm (past @ admitted cpm nows kept)"
      using nows past Cons.prems(4) le_now old' Cons.prems(7)
      by (intro Cons.IH [of now past old' kept])
    with False show ?thesis by (simp add: try_slot_def kept_def)
  next
    case True
    define past' where "past' = past @ [now]"
    have p1: "past' = old' @ (kept @ [now])" by (simp add: past'_def past)
    have p2: "sorted past'"
      using Cons.prems(4) le_now by (simp add: past'_def sorted_append)
    have p3: "\<forall>t \<in> set past'. t \<le> now" using le_now by (simp add: past'_def)
    have p4: "window_bound cpm past'"
      unfolding window_bound_def
    proof
      fix w
      show "int (length (in_window w past')) \<le> max 0 cpm"
      proof (cases "w \<le> now \<and> now \<le> w + 60")
        case False
        then have "in_window w past' = in_window w past"
          by (auto simp: in_window_def past'_def)
        with Cons.prems(7) show ?thesis by (simp add: window_bound_def)
      next
        case inw: True
        have "filter (\<lambda>a. w \<le> a \<and> a \<le> w + 60) old' = []"
          using old' inw by (auto simp: filter_empty_conv)
        then have "in_window w past' = in_window w kept @ [now]"
          using inw by (simp add: in_window_def p1)
        moreover have "length (in_window w kept) \<le> length kept"
          by (simp add: in_window_def)
        ultimately show ?thesis using True by simp
      qed
    qed
    have "window_bound cpm (past' @ admitted cpm nows (kept @ [now]))"
      using nows p1 p2 p3 old' p4
      by (intro Cons.IH [of now past' old' "kept @ [now]"])
    with True show ?thesis by (simp add: try_slot_def kept_def past'_def)
  qed
qed

lemma admitted_window:
  assumes "sorted nows"
  shows "int (length (in_window w (admitted cpm nows []))) \<le> max 0 cpm"
proof (cases nows)
  case Nil
  then show ?thesis by (simp add: in_window_def)
next
  case (Cons n ns)
  with assms have "\<forall>m \<in> set nows. n \<le> m" by auto
  with assms have "window_bound cpm ([] @ admitted cpm nows [])"
    by (intro admitted_window_aux [of nows n "[]" "[]" "[]"])
      (simp_all add: window_bound_def in_window_def)
  then show ?thesis by (simp add: window_bound_def)
qed

subsection \<open>The sliding window and the blocking call\<close>

text \<open>
  Claim C1.  Take the passes of all callers through the locked region in the order in
  which they hold the lock, with clock readings that do not decrease, starting from the
  empty queue.  Whatever the cap \<open>N\<close>, no closed window of 60 seconds contains more
  than \<open>N\<close> of the admitted timestamps (none at all when \<open>N \<le> 0\<close>).  For one caller,
  on a sorted queue and non-decreasing readings, \<open>wait_for_slot\<close> stays blocked over
  every reading at which \<open>N\<close> or more timestamps lie in the trailing 60-second window;
  at the first reading with fewer it records that reading after the timestamps of the
  trailing window and returns; and it has not returned while no such reading has come.
  Check and record are one step (\<open>try_slot\<close>), as under the lock.
\<close>

theorem limiter_window_bound:
  "(sorted nows \<longrightarrow>
      (\<forall>w. int (length (in_window w (admitted calls_per_minute nows [])))
            \<le> max 0 calls_per_minute))
   \<and> (sorted call_timestamps \<and> sorted clock \<longrightarrow>
        wait_for_slot calls_per_minute clock call_timestamps =
          (case dropWhile (\<lambda>now. \<not> room calls_per_minute call_timestamps now) clock of
             [] \<Rightarrow> None
           | now # rest \<Rightarrow> Some (trailing now call_timestamps @ [now], rest)))"
proof (intro conjI impI allI)
  fix w
  assume "sorted nows"
  then show "int (length (in_window w (admitted calls_per_minute nows [])))
      \<le> max 0 calls_per_minute"
    by (rule admitted_window)
next
  assume "sorted call_timestamps \<and> sorted clock"
  then show "wait_for_slot calls_per_minute clock call_timestamps =
      (case dropWhile (\<lambda>now. \<not> room calls_per_minute call_timestamps now) clock of
         [] \<Rightarrow> None
       | now # rest \<Rightarrow> Some (trailing now call_timestamps @ [now], rest))"
    by (intro wait_for_slot_first_room) simp_all
qed

text \<open>
  A cap of two calls per minute.  Calls at seconds 0 and 1 are admitted; passes at 2
  and 30 find the window full; at 61 the timestamp 0 has left the window, at 62 the
  timestamp 1 has; the pass at 63 is refused.  The window from second 1 to second 61
  holds two admitted calls.  A caller that arrives with the queue \<open>[0, 1]\<close> and polls
  at 2, 30, 61 is admitted at 61.
\<close>

theorem limiter_window_bound_witness:
  "sorted [0, 1, 2, 30, 61, 62, 63 :: real]
   \<and> admitted 2 [0, 1, 2, 30, 61, 62, 63] [] = [0, 1, 61, 62]
   \<and> in_window 1 (admitted 2 [0, 1, 2, 30, 61, 62, 63] []) = [1, 61]
   \<and> int (length (in_window 1 (admitted 2 [0, 1, 2, 30, 61, 62, 63] []))) \<le> 2
   \<and> sorted [0, 1 :: real] \<and> sorted [2, 30, 61, 62 :: real]
   \<and> wait_for_slot 2 [2, 30, 61, 62] [0, 1] = Some ([1, 61], [62])"
proof -
  have s1: "sorted [0, 1, 2, 30, 61, 62, 63 :: real]" by simp
  have s2: "sorted [0, 1 :: real] \<and> sorted [2, 30, 61, 62 :: real]" by simp
  have adm: "admitted 2 [0, 1, 2, 30, 61, 62, 63] [] = [0, 1, 61, 62]"
    by (simp add: try_slot_def)
  have win: "in_window 1 [0, 1, 61, 62] = [1, 61]"
    by (simp add: in_window_def)
  note inst = limiter_window_bound
    [of "[0, 1, 2, 30, 61, 62, 63]" 2 "[0, 1]" "[2, 30, 61, 62]"]
  from inst [THEN conjunct1, THEN mp, OF s1, THEN spec, of 1]
  have "int (length (in_window 1 (admitted 2 [0, 1, 2, 30, 61, 62, 63] []))) \<le> max 0 2" .
  then have bound: "int (length (in_window 1 (admitted 2 [0, 1, 2, 30, 61, 62, 63] []))) \<le> 2"
    by simp
  from inst [THEN conjunct2, THEN mp, OF s2]
  have "wait_for_slot 2 [2, 30, 61, 62] [0, 1] =
      (case dropWhile (\<lambda>now. \<not> room 2 [0, 1] now) [2, 30, 61, 62] of
         [] \<Rightarrow> None
       | now # rest \<Rightarrow> Some (trailing now [0, 1] @ [now], rest))" .
  then have wait: "wait_for_slot 2 [2, 30, 61, 62] [0, 1] = Some ([1, 61], [62])"
    by (simp add: room_def trailing_def)
  from s1 adm win bound s2 wait show ?thesis by (simp only: simp_thms)
qed

section \<open>Properties of batch processing\<close>

lemma admits_Suc: "admits cpm (Suc k) r t \<Longrightarrow> admits cpm k r t"
proof (induction k arbitrary: r t)
  case 0
  then show ?case by simp
next
  case (Suc k)
  show ?case
  proof (cases "wait_for_slot cpm r t")
    case None
    with Suc.prems show ?thesis by simp
  next
    case (Some p)
    obtain ts' r' where p: "p = (ts', r')" by (cases p)
    with Some Suc.prems have "admits cpm (Suc k) r' ts'" by simp
    then have "admits cpm k r' ts'" by (rule Suc.IH)
    with Some p show ?thesis by simp
  qed
qed

lemma admits_add: "admits cpm (j + k) r t \<Longrightarrow> admits cpm k r t"
proof (induction j)
  case 0
  then show ?case by simp
next
  case (Suc j)
  from Suc.prems have "admits cpm (Suc (j + k)) r t" by simp
  then have "admits cpm (j + k) r t" by (rule admits_Suc)
  then show ?case by (rule Suc.IH)
qed

lemma admits_le: "admits cpm k r t \<Longrightarrow> j \<le> k \<Longrightarrow> admits cpm j r t"
  using admits_add [of cpm "k - j" j r t] by simp








subsection \<open>Retries, back-off and the record of a failed batch\<close>



subsection \<open>One record per batch, with the batch's ids\<close>



subsection \<open>The daily call cap\<close>




end
